theory Spec2Isabelle
  imports Main "HOL-Library.AList" "HOL-Library.Sublist"
begin

section \<open>The prefix trie of bcachectl\<close>

subsection \<open>Data model\<close>

text \<open>
  A \<^verbatim>\<open>Trie\<close> object has one field, \<^verbatim>\<open>children\<close>, a dictionary from a character to
  a \<^verbatim>\<open>Trie\<close>. A Python dictionary keeps its keys in insertion order, so the field is
  an association list in that order; \<^verbatim>\<open>Trie()\<close> is \<open>Trie []\<close>. A dictionary holds a key
  at most once, which is the predicate \<open>wf_trie\<close> below.
\<close>

datatype trie = Trie (children: "(char \<times> trie) list")

text \<open>
  The exceptions the source can raise: \<^verbatim>\<open>IndexError\<close> from indexing a string or a list,
  \<^verbatim>\<open>KeyError\<close> from a dictionary lookup.
\<close>

datatype error = IndexError | KeyError

fun wf_trie :: "trie \<Rightarrow> bool" where
  "wf_trie (Trie cs) = (distinct (map fst cs) \<and> list_all (\<lambda>p. wf_trie (snd p)) cs)"

subsection \<open>insert\<close>

text \<open>
  \<^verbatim>\<open>insert\<close> mutates the object it is called on and returns nothing. The model returns
  the outcome of the call (\<open>None\<close> when it returns, \<open>Some e\<close> when it raises \<open>e\<close>) and the
  trie as the call leaves it. \<^verbatim>\<open>key[0]\<close> is the first statement, and raises on the
  empty key. \<^verbatim>\<open>ch not in self.children\<close> is \<open>map_of cs ch = None\<close>; the assignment
  \<^verbatim>\<open>self.children[ch] = Trie()\<close> of a new key appends it; the recursive call mutates
  the child in place, which \<open>AList.update\<close> writes back at the child's position.
\<close>

fun insert_trie :: "trie \<Rightarrow> string \<Rightarrow> error option \<times> trie" where
  "insert_trie (Trie cs) [] = (Some IndexError, Trie cs)"
| "insert_trie (Trie cs) (ch # rest) =
     (let cs1 = (if map_of cs ch = None then AList.update ch (Trie []) cs else cs) in
      if length (ch # rest) > 1 then
        (case map_of cs1 ch of
           None \<Rightarrow> (Some KeyError, Trie cs1)
         | Some child \<Rightarrow>
             (case insert_trie child rest of
                (e, child') \<Rightarrow> (e, Trie (AList.update ch child' cs1))))
      else (None, Trie cs1))"

text \<open>
  \<open>inserted t key\<close> is the trie that \<^verbatim>\<open>t.insert(key)\<close> leaves, and \<open>build keys\<close> the trie
  after inserting the keys in turn, starting from \<^verbatim>\<open>Trie()\<close>.
\<close>

definition inserted :: "trie \<Rightarrow> string \<Rightarrow> trie" where
  "inserted t key = snd (insert_trie t key)"

definition build :: "string list \<Rightarrow> trie" where
  "build keys = foldl inserted (Trie []) keys"

subsection \<open>find\<close>

text \<open>
  \<^verbatim>\<open>find\<close> returns \<^verbatim>\<open>False\<close>, a string, or a pair of a string and a node; the
  specification names the three \<open>NotFound\<close>, \<open>Unique\<close> and \<open>Ambiguous\<close>.
\<close>

datatype find_result = NotFound | Unique string | Ambiguous string trie

text \<open>
  The branch \<^verbatim>\<open>key is None\<close>: the three equations are the tests
  \<^verbatim>\<open>len(self.children) == 0\<close>, the remaining case of exactly one child, and
  \<^verbatim>\<open>len(self.children) > 1\<close>. This branch never indexes the key, and every
  recursive call it makes passes \<^verbatim>\<open>None\<close> again.
\<close>

fun find_None :: "trie \<Rightarrow> find_result" where
  "find_None (Trie []) = Unique []"
| "find_None (Trie [(ch, child)]) =
     (case find_None child of
        Unique tail \<Rightarrow> Unique (ch # tail)
      | NotFound \<Rightarrow> NotFound
      | Ambiguous tail node \<Rightarrow> Ambiguous (ch # tail) node)"
| "find_None (Trie cs) = Ambiguous [] (Trie cs)"

text \<open>The branch of a string key; \<^verbatim>\<open>key[0]\<close> raises on the empty string.\<close>

fun find_str :: "trie \<Rightarrow> string \<Rightarrow> error + find_result" where
  "find_str (Trie cs) [] = Inl IndexError"
| "find_str (Trie cs) (ch # rest) =
     (case map_of cs ch of
        None \<Rightarrow> Inr NotFound
      | Some child \<Rightarrow>
          (case (if length (ch # rest) = 1 then Inr (find_None child)
                 else find_str child rest) of
             Inl e \<Rightarrow> Inl e
           | Inr (Unique tail) \<Rightarrow> Inr (Unique (ch # tail))
           | Inr NotFound \<Rightarrow> Inr NotFound
           | Inr (Ambiguous tail node) \<Rightarrow> Inr (Ambiguous (ch # tail) node)))"

definition find_trie :: "trie \<Rightarrow> string option \<Rightarrow> error + find_result" where
  "find_trie self key =
     (case key of None \<Rightarrow> Inr (find_None self) | Some k \<Rightarrow> find_str self k)"

subsection \<open>shorten\<close>

text \<open>
  Python's \<^verbatim>\<open>key[:n]\<close> (and \<^verbatim>\<open>key[0:n]\<close>): the first \<open>n\<close> symbols, the whole key when
  \<open>n\<close> exceeds its length, and for a negative \<open>n\<close> all but the last \<open>-n\<close> symbols.
\<close>

definition slice_to :: "string \<Rightarrow> int \<Rightarrow> string" where
  "slice_to key n =
     (if 0 \<le> n then take (nat n) key else take (nat (int (length key) + n)) key)"

text \<open>
  The first loop: \<open>None\<close> is \<^verbatim>\<open>return False\<close>, \<open>Some items\<close> the list the loop leaves.
  The loop reads \<^verbatim>\<open>key[len(items)]\<close> and appends one node each round, so the second
  argument is the part of the key not yet consumed.
\<close>

fun walk :: "trie \<Rightarrow> string \<Rightarrow> trie list \<Rightarrow> trie list option" where
  "walk this [] items = Some items"
| "walk this (ch # rest) items =
     (case map_of (children this) ch of
        None \<Rightarrow> None
      | Some child \<Rightarrow> walk child rest (items @ [child]))"

text \<open>
  The second loop, from \<^verbatim>\<open>while offset >= 0\<close> to the final \<^verbatim>\<open>return key[0:minlen]\<close>.
  It starts at \<open>len(items) - 2\<close> and only counts down, so \<^verbatim>\<open>items[offset]\<close> is always
  in range inside the loop.
\<close>

function scan :: "trie list \<Rightarrow> int \<Rightarrow> int \<Rightarrow> string \<Rightarrow> string" where
  "scan items offset minlen key =
     (if 0 \<le> offset then
        (if length (children (items ! nat offset)) = 1 then scan items (offset - 1) minlen key
         else (let offset2 = offset + 2;
                   offset3 = (if offset2 < minlen then minlen else offset2)
               in slice_to key offset3))
      else slice_to key minlen)"
  by pat_completeness auto
termination
  by (relation "measure (\<lambda>(items, offset, minlen, key). nat (offset + 1))") auto

declare scan.simps [simp del]

text \<open>
  \<open>Inr None\<close> is \<^verbatim>\<open>return False\<close>. \<^verbatim>\<open>items[-1]\<close> raises when the key is empty, since
  the first loop then leaves \<open>items\<close> empty. The default of \<open>minlen\<close> is 1.
\<close>

definition shorten :: "trie \<Rightarrow> string \<Rightarrow> int \<Rightarrow> error + string option" where
  "shorten self key minlen =
     (case walk self key [] of
        None \<Rightarrow> Inr None
      | Some items \<Rightarrow>
          if items = [] then Inl IndexError
          else if length (children (last items)) \<noteq> 0 then Inr None
          else Inr (Some (scan items (int (length items) - 2) minlen key)))"

subsection \<open>prefixes\<close>

text \<open>
  The argument \<open>pfx\<close> is the source's \<^verbatim>\<open>prefix\<close>; \<^verbatim>\<open>None\<close> stands for the empty string.
  The defaults are \<^verbatim>\<open>prefix=None\<close> and \<^verbatim>\<open>minlen=0\<close>.
\<close>

fun prefixes_trie :: "trie \<Rightarrow> string option \<Rightarrow> int \<Rightarrow> string set" where
  "prefixes_trie (Trie cs) pfx minlen =
     (let pfx = (case pfx of None \<Rightarrow> [] | Some p \<Rightarrow> p) in
      if length cs = 0 then {pfx}
      else if length cs = 1 \<and> minlen \<le> int (length pfx) then {pfx}
      else (\<Union>(ch, v) \<in> set cs. prefixes_trie v (Some (pfx @ [ch])) minlen))"

declare prefixes_trie.simps [simp del]

subsection \<open>Notions of the specification\<close>

text \<open>
  The specification speaks of the node reached from a node by consuming a symbol
  sequence, one child lookup per symbol (\<open>None\<close> when some symbol has no matching
  child), and of a run of single-child nodes followed from a node: the symbols of the
  run, and the first node on it that does not have exactly one child.
\<close>

fun node_at :: "trie \<Rightarrow> string \<Rightarrow> trie option" where
  "node_at t [] = Some t"
| "node_at t (ch # rest) =
     (case map_of (children t) ch of None \<Rightarrow> None | Some child \<Rightarrow> node_at child rest)"

fun single_run :: "trie \<Rightarrow> string \<times> trie" where
  "single_run (Trie [(ch, child)]) = (ch # fst (single_run child), snd (single_run child))"
| "single_run t = ([], t)"

section \<open>Properties\<close>

subsection \<open>The first loop of shorten and the nodes of a path\<close>

lemma walk_acc:
  "walk t key items = (case walk t key [] of None \<Rightarrow> None | Some ns \<Rightarrow> Some (items @ ns))"
proof (induction key arbitrary: t items)
  case Nil
  then show ?case by simp
next
  case (Cons ch rest)
  show ?case
  proof (cases "map_of (children t) ch")
    case None
    then show ?thesis by simp
  next
    case (Some child)
    show ?thesis
      using Some Cons.IH [of child "items @ [child]"] Cons.IH [of child "[child]"]
      by (simp split: option.splits)
  qed
qed

lemma walk_Cons:
  "walk t (ch # rest) [] =
     (case map_of (children t) ch of None \<Rightarrow> None
      | Some child \<Rightarrow>
          (case walk child rest [] of None \<Rightarrow> None | Some ns \<Rightarrow> Some (child # ns)))"
proof (cases "map_of (children t) ch")
  case None then show ?thesis by simp
next
  case (Some child)
  then show ?thesis using walk_acc [of child rest "[child]"] by (simp split: option.splits)
qed

lemma walk_None_iff: "walk t key [] = None \<longleftrightarrow> node_at t key = None"
proof (induction key arbitrary: t)
  case Nil then show ?case by simp
next
  case (Cons ch rest)
  show ?case
  proof (cases "map_of (children t) ch")
    case None
    then show ?thesis by simp
  next
    case (Some child)
    then show ?thesis using Cons.IH [of child]
      by (cases "walk child rest []") (simp_all add: walk_Cons del: walk.simps)
  qed
qed

lemma walk_length: "walk t key [] = Some ns \<Longrightarrow> length ns = length key"
proof (induction key arbitrary: t ns)
  case Nil then show ?case by simp
next
  case (Cons ch rest)
  from Cons.prems show ?case unfolding walk_Cons
    by (auto split: option.splits dest: Cons.IH)
qed

lemma walk_nth:
  "walk t key [] = Some ns \<Longrightarrow> i < length key \<Longrightarrow> node_at t (take (Suc i) key) = Some (ns ! i)"
proof (induction key arbitrary: t ns i)
  case Nil then show ?case by simp
next
  case (Cons ch rest)
  from Cons.prems(1) obtain child ms where
    c: "map_of (children t) ch = Some child" and ms: "walk child rest [] = Some ms" and ns: "ns = child # ms"
    unfolding walk_Cons by (auto split: option.splits)
  show ?case
  proof (cases i)
    case 0
    then show ?thesis using c ns by simp
  next
    case (Suc j)
    then have "j < length rest" using Cons.prems(2) by simp
    from Cons.IH [OF ms this] show ?thesis using c ns Suc by simp
  qed
qed

lemma node_at_append:
  "node_at t (xs @ ys) = (case node_at t xs of None \<Rightarrow> None | Some n \<Rightarrow> node_at n ys)"
  by (induction xs arbitrary: t) (auto split: option.splits)

lemma walk_last:
  assumes "walk t key [] = Some ns" "key \<noteq> []"
  shows "node_at t key = Some (last ns)"
proof -
  have len: "length ns = length key" using assms(1) by (rule walk_length)
  have "length key - 1 < length key" using assms(2) by simp
  from walk_nth [OF assms(1) this] have "node_at t key = Some (ns ! (length key - 1))"
    using assms(2) by simp
  moreover have "ns \<noteq> []" using len assms(2) by auto
  ultimately show ?thesis using len by (simp add: last_conv_nth)
qed

lemma node_at_None_iff:
  "node_at t key = None \<longleftrightarrow>
     (\<exists>i<length key. \<exists>n. node_at t (take i key) = Some n \<and> map_of (children n) (key ! i) = None)"
proof (induction key arbitrary: t)
  case Nil
  then show ?case by simp
next
  case (Cons ch rest)
  show ?case
  proof (cases "map_of (children t) ch")
    case None
    then have "node_at t (take 0 (ch # rest)) = Some t \<and> map_of (children t) ((ch # rest) ! 0) = None"
      by simp
    then have "\<exists>i<length (ch # rest). \<exists>n. node_at t (take i (ch # rest)) = Some n \<and>
        map_of (children n) ((ch # rest) ! i) = None"
      by (intro exI [of _ 0]) simp
    then show ?thesis using None by simp
  next
    case (Some child)
    have "(\<exists>i<length (ch # rest). \<exists>n. node_at t (take i (ch # rest)) = Some n \<and>
        map_of (children n) ((ch # rest) ! i) = None) \<longleftrightarrow>
      (\<exists>i<length rest. \<exists>n. node_at child (take i rest) = Some n \<and>
        map_of (children n) (rest ! i) = None)" (is "?L \<longleftrightarrow> ?R")
    proof
      assume ?L
      then obtain i n where i: "i < length (ch # rest)"
        and n: "node_at t (take i (ch # rest)) = Some n"
        and m: "map_of (children n) ((ch # rest) ! i) = None" by blast
      show ?R
      proof (cases i)
        case 0
        then show ?thesis using n m Some by simp
      next
        case (Suc k)
        then show ?thesis using i n m Some by (intro exI [of _ k]) simp
      qed
    next
      assume ?R
      then obtain i n where "i < length rest" "node_at child (take i rest) = Some n"
        "map_of (children n) (rest ! i) = None" by blast
      then show ?L using Some by (intro exI [of _ "Suc i"]) simp
    qed
    then show ?thesis using Some Cons.IH [of child] by simp
  qed
qed

subsection \<open>Slices and the second loop of shorten\<close>

lemma slice_to_prefix: "prefix (slice_to key n) key"
  by (simp add: slice_to_def take_is_prefix)

lemma length_slice_to:
  "length (slice_to key n) =
     (if 0 \<le> n then min (nat n) (length key) else nat (int (length key) + n))"
  by (auto simp: slice_to_def)

text \<open>The second loop: what it returns, and which nodes it has seen with one child.\<close>

lemma scan_chain:
  "(\<And>i. 0 \<le> i \<Longrightarrow> i \<le> off \<Longrightarrow> length (children (items ! nat i)) = 1) \<Longrightarrow>
   scan items off m key = slice_to key m"
proof (induction items off m key rule: scan.induct)
  case (1 items offset minlen key)
  show ?case
  proof (cases "0 \<le> offset")
    case True
    then have one: "length (children (items ! nat offset)) = 1" using "1.prems" by simp
    have "scan items (offset - 1) minlen key = slice_to key minlen"
      using True one "1.prems" by (intro "1.IH") simp_all
    then show ?thesis using True one by (subst scan.simps) simp
  next
    case False
    then show ?thesis by (subst scan.simps) simp
  qed
qed

lemma scan_branch:
  "0 \<le> j \<Longrightarrow> j \<le> off \<Longrightarrow> length (children (items ! nat j)) \<noteq> 1 \<Longrightarrow>
   (\<And>i. j < i \<Longrightarrow> i \<le> off \<Longrightarrow> length (children (items ! nat i)) = 1) \<Longrightarrow>
   scan items off m key = slice_to key (max (j + 2) m)"
proof (induction items off m key rule: scan.induct)
  case (1 items offset minlen key)
  have off: "0 \<le> offset" using "1.prems"(1,2) by simp
  show ?case
  proof (cases "j = offset")
    case True
    then show ?thesis using off "1.prems"(3) by (subst scan.simps) (simp add: Let_def max_def)
  next
    case False
    then have lt: "j < offset" using "1.prems"(2) by simp
    then have one: "length (children (items ! nat offset)) = 1" using "1.prems"(4) by simp
    have "scan items (offset - 1) minlen key = slice_to key (max (j + 2) minlen)"
      using off one lt "1.prems" by (intro "1.IH") simp_all
    then show ?thesis using off one by (subst scan.simps) simp
  qed
qed

lemma scan_form:
  "\<exists>n. (\<forall>m. scan items off m key = slice_to key (if n = 0 then m else max n m)) \<and>
       (n = 0 \<or> 2 \<le> n) \<and>
       (\<forall>i. 0 \<le> i \<and> n - 1 \<le> i \<and> i \<le> off \<longrightarrow> length (children (items ! nat i)) = 1)"
proof (cases "\<forall>i. 0 \<le> i \<and> i \<le> off \<longrightarrow> length (children (items ! nat i)) = 1")
  case True
  then have "\<forall>m. scan items off m key = slice_to key m" by (simp add: scan_chain)
  then show ?thesis using True by (intro exI [of _ 0]) simp
next
  case False
  define S where "S = {i. 0 \<le> i \<and> i \<le> off \<and> length (children (items ! nat i)) \<noteq> 1}"
  have fin: "finite S" unfolding S_def by (rule finite_subset [of _ "{0..off}"]) auto
  have ne: "S \<noteq> {}" using False unfolding S_def by auto
  define j where "j = Max S"
  have jS: "j \<in> S" unfolding j_def using fin ne by (rule Max_in)
  have jmax: "\<And>i. i \<in> S \<Longrightarrow> i \<le> j" unfolding j_def using fin by simp
  have j0: "0 \<le> j" and joff: "j \<le> off" and jb: "length (children (items ! nat j)) \<noteq> 1"
    using jS unfolding S_def by auto
  have above: "\<And>i. j < i \<Longrightarrow> i \<le> off \<Longrightarrow> length (children (items ! nat i)) = 1"
  proof (rule ccontr)
    fix i assume "j < i" "i \<le> off" "length (children (items ! nat i)) \<noteq> 1"
    then have "i \<in> S" using j0 unfolding S_def by simp
    then show False using jmax \<open>j < i\<close> by fastforce
  qed
  have "\<forall>m. scan items off m key = slice_to key (max (j + 2) m)"
    using scan_branch [OF j0 joff jb above] by simp
  then show ?thesis using j0 above by (intro exI [of _ "j + 2"]) auto
qed


lemma shorten_empty: "shorten t [] m = Inl IndexError"
  by (simp add: shorten_def)

lemma shorten_no_path: "node_at t key = None \<Longrightarrow> shorten t key m = Inr None"
  using walk_None_iff [of t key] by (simp add: shorten_def)

lemma shorten_path:
  assumes "key \<noteq> []" "node_at t key = Some n"
  shows "\<exists>items. walk t key [] = Some items \<and> length items = length key \<and>
           shorten t key m =
             (if children n \<noteq> [] then Inr None
              else Inr (Some (scan items (int (length items) - 2) m key)))"
proof -
  from assms(2) obtain items where w: "walk t key [] = Some items"
    using walk_None_iff [of t key] by (cases "walk t key []") auto
  have len: "length items = length key" using w by (rule walk_length)
  have "node_at t key = Some (last items)" using w assms(1) by (rule walk_last)
  then have l: "last items = n" using assms(2) by simp
  have "items \<noteq> []" using len assms(1) by auto
  then show ?thesis using w len l by (simp add: shorten_def)
qed

subsection \<open>find along a path\<close>

lemma find_None_run:
  "find_None n =
     (case single_run n of (r, b) \<Rightarrow> if children b = [] then Unique r else Ambiguous r b)"
  by (induction n rule: find_None.induct) (simp_all split: prod.splits)

lemma find_str_node:
  "p \<noteq> [] \<Longrightarrow> node_at t p = Some n \<Longrightarrow>
   find_str t p =
     Inr (case find_None n of
            NotFound \<Rightarrow> NotFound
          | Unique s \<Rightarrow> Unique (p @ s)
          | Ambiguous s b \<Rightarrow> Ambiguous (p @ s) b)"
proof (induction p arbitrary: t)
  case Nil
  then show ?case by simp
next
  case (Cons ch rest)
  obtain cs where t: "t = Trie cs" by (cases t)
  from Cons.prems(2) obtain child where
    c: "map_of cs ch = Some child" and n: "node_at child rest = Some n"
    using t by (auto split: option.splits)
  show ?case
  proof (cases "rest = []")
    case True
    then have "child = n" using n by simp
    then show ?thesis using t c True by (simp split: find_result.splits)
  next
    case False
    from Cons.IH [OF False n] show ?thesis using t c False
      by (simp split: find_result.splits)
  qed
qed

lemma find_str_no_path: "p \<noteq> [] \<Longrightarrow> node_at t p = None \<Longrightarrow> find_str t p = Inr NotFound"
proof (induction p arbitrary: t)
  case Nil
  then show ?case by simp
next
  case (Cons ch rest)
  obtain cs where t: "t = Trie cs" by (cases t)
  show ?case
  proof (cases "map_of cs ch")
    case None
    then show ?thesis using t by simp
  next
    case (Some child)
    then have n: "node_at child rest = None" using Cons.prems(2) t by simp
    then have "rest \<noteq> []" by auto
    from Cons.IH [OF this n] show ?thesis using t Some \<open>rest \<noteq> []\<close> by simp
  qed
qed

lemma find_None_chain:
  "node_at n s = Some leaf \<Longrightarrow> children leaf = [] \<Longrightarrow>
   (\<And>i. i < length s \<Longrightarrow> \<exists>m. node_at n (take i s) = Some m \<and> length (children m) = 1) \<Longrightarrow>
   find_None n = Unique s"
proof (induction s arbitrary: n)
  case Nil
  then have "n = Trie []" by (cases n) auto
  then show ?case by simp
next
  case (Cons ch rest)
  from Cons.prems(3) [of 0] have "length (children n) = 1" by simp
  then obtain c child where n: "n = Trie [(c, child)]"
    by (cases n) (auto simp: length_Suc_conv)
  from Cons.prems(1) have c: "c = ch" and r: "node_at child rest = Some leaf"
    using n by (auto split: if_splits)
  have "find_None child = Unique rest"
  proof (rule Cons.IH [OF r Cons.prems(2)])
    fix i assume "i < length rest"
    then have "\<exists>m. node_at n (take (Suc i) (ch # rest)) = Some m \<and> length (children m) = 1"
      by (intro Cons.prems(3)) simp
    then show "\<exists>m. node_at child (take i rest) = Some m \<and> length (children m) = 1"
      using n c by simp
  qed
  then show ?case using n c by simp
qed

subsection \<open>What insert does to a trie\<close>

lemma insert_trie_returns: "key \<noteq> [] \<Longrightarrow> fst (insert_trie t key) = None"
proof (induction key arbitrary: t)
  case Nil
  then show ?case by simp
next
  case (Cons ch rest)
  obtain cs where t: "t = Trie cs" by (cases t)
  show ?case
  proof (cases "rest = []")
    case True
    then show ?thesis using t by (simp add: Let_def)
  next
    case False
    have "e = None" if "insert_trie c rest = (e, c')" for c e c'
      using Cons.IH [OF False, of c] that by simp
    then show ?thesis using t False
      by (auto simp: Let_def update_conv' split: option.splits prod.splits)
  qed
qed

lemma inserted_Nil: "inserted t [] = t"
  by (cases t) (simp add: inserted_def)

lemma inserted_Cons:
  "inserted (Trie cs) (ch # rest) =
     Trie (AList.update ch
       (let c0 = (case map_of cs ch of None \<Rightarrow> Trie [] | Some c \<Rightarrow> c)
        in if rest = [] then c0 else inserted c0 rest) cs)"
proof (cases "map_of cs ch")
  case None
  then show ?thesis
    by (simp add: inserted_def Let_def update_conv' split: prod.splits)
next
  case (Some c)
  then show ?thesis
    by (simp add: inserted_def Let_def update_triv split: prod.splits)
qed

lemma inserted_existing: "key \<noteq> [] \<Longrightarrow> node_at t key \<noteq> None \<Longrightarrow> inserted t key = t"
proof (induction key arbitrary: t)
  case Nil
  then show ?case by simp
next
  case (Cons ch rest)
  obtain cs where t: "t = Trie cs" by (cases t)
  from Cons.prems(2) obtain c where c: "map_of cs ch = Some c" and n: "node_at c rest \<noteq> None"
    using t by (auto split: option.splits)
  have "(if rest = [] then c else inserted c rest) = c"
    using Cons.IH [of c] n by simp
  then show ?case using t c by (simp add: inserted_Cons update_triv)
qed

lemma node_at_inserted: "key \<noteq> [] \<Longrightarrow> node_at (inserted t key) key \<noteq> None"
proof (induction key arbitrary: t)
  case Nil
  then show ?case by simp
next
  case (Cons ch rest)
  obtain cs where t: "t = Trie cs" by (cases t)
  show ?case using t Cons.IH
    by (cases "rest = []") (simp_all add: inserted_Cons update_conv' Let_def)
qed

lemma insert_keeps_nodes:
  "node_at t p = Some n \<Longrightarrow>
   \<exists>n'. node_at (inserted t key) p = Some n' \<and>
        prefix (map fst (children n)) (map fst (children n'))"
proof (induction key arbitrary: t p n)
  case Nil
  then show ?case by (simp add: inserted_Nil)
next
  case (Cons ch rest)
  obtain cs where t: "t = Trie cs" by (cases t)
  define c0 where "c0 = (case map_of cs ch of None \<Rightarrow> Trie [] | Some c \<Rightarrow> c)"
  define c' where "c' = (if rest = [] then c0 else inserted c0 rest)"
  have ins: "inserted t (ch # rest) = Trie (AList.update ch c' cs)"
    unfolding t c'_def c0_def by (simp add: inserted_Cons Let_def)
  show ?case
  proof (cases p)
    case Nil
    then have "n = t" using Cons.prems by simp
    then show ?thesis using Nil ins t by (simp add: update_keys)
  next
    case p: (Cons a q)
    from Cons.prems obtain c where c: "map_of cs a = Some c" and n: "node_at c q = Some n"
      using t p by (auto split: option.splits)
    show ?thesis
    proof (cases "a = ch")
      case True
      then have c0: "c0 = c" using c unfolding c0_def by simp
      have "\<exists>n'. node_at c' q = Some n' \<and> prefix (map fst (children n)) (map fst (children n'))"
      proof (cases "rest = []")
        case True
        then show ?thesis using n c0 unfolding c'_def by simp
      next
        case False
        then show ?thesis using Cons.IH [OF n, of] c0 unfolding c'_def by simp
      qed
      then show ?thesis using ins p True by (simp add: update_conv')
    next
      case False
      then show ?thesis using ins p c n by (simp add: update_conv')
    qed
  qed
qed

lemma set_update_subset: "set (AList.update k v al) \<subseteq> insert (k, v) (set al)"
  by (induction al) auto

lemma wf_trie_inserted: "wf_trie t \<Longrightarrow> wf_trie (inserted t key)"
proof (induction key arbitrary: t)
  case Nil
  then show ?case by (simp add: inserted_Nil)
next
  case (Cons ch rest)
  obtain cs where t: "t = Trie cs" by (cases t)
  define c0 where "c0 = (case map_of cs ch of None \<Rightarrow> Trie [] | Some c \<Rightarrow> c)"
  define c' where "c' = (if rest = [] then c0 else inserted c0 rest)"
  have ins: "inserted t (ch # rest) = Trie (AList.update ch c' cs)"
    unfolding t c'_def c0_def by (simp add: inserted_Cons Let_def)
  have all: "\<And>q. q \<in> set cs \<Longrightarrow> wf_trie (snd q)" and d: "distinct (map fst cs)"
    using Cons.prems t by (auto simp: list_all_iff)
  have "wf_trie c0"
  proof (cases "map_of cs ch")
    case None
    then show ?thesis unfolding c0_def by simp
  next
    case (Some c)
    then have "(ch, c) \<in> set cs" by (rule map_of_SomeD)
    then show ?thesis using all [of "(ch, c)"] Some unfolding c0_def by simp
  qed
  then have "wf_trie c'" unfolding c'_def using Cons.IH by simp
  then have "\<And>q. q \<in> set (AList.update ch c' cs) \<Longrightarrow> wf_trie (snd q)"
    using all set_update_subset [of ch c' cs] by auto
  then show ?case using ins d by (simp add: list_all_iff distinct_update)
qed

lemma build_snoc: "build (keys @ [key]) = inserted (build keys) key"
  by (simp add: build_def)

lemma wf_trie_build: "wf_trie (build keys)"
proof (induction keys rule: rev_induct)
  case Nil
  show ?case by (simp add: build_def)
next
  case (snoc key keys)
  then show ?case by (simp add: build_snoc wf_trie_inserted)
qed

lemma node_at_build: "key \<in> set keys \<Longrightarrow> key \<noteq> [] \<Longrightarrow> node_at (build keys) key \<noteq> None"
proof (induction keys rule: rev_induct)
  case Nil
  then show ?case by simp
next
  case (snoc k keys)
  show ?case
  proof (cases "key = k")
    case True
    then show ?thesis using snoc.prems(2) by (simp add: build_snoc node_at_inserted)
  next
    case False
    then have "node_at (build keys) key \<noteq> None" using snoc by simp
    then obtain n where "node_at (build keys) key = Some n" by auto
    from insert_keeps_nodes [OF this, of k] show ?thesis by (auto simp: build_snoc)
  qed
qed

subsection \<open>The elements of prefixes\<close>

lemma prefixes_Some:
  "prefixes_trie (Trie cs) (Some p) m =
     (if cs = [] then {p}
      else if length cs = 1 \<and> m \<le> int (length p) then {p}
      else (\<Union>(ch, v) \<in> set cs. prefixes_trie v (Some (p @ [ch])) m))"
  by (simp add: prefixes_trie.simps)

lemma prefixes_None: "prefixes_trie t None m = prefixes_trie t (Some []) m"
  by (cases t) (simp add: prefixes_trie.simps)

lemma prefixes_extend: "x \<in> prefixes_trie t (Some p) m \<Longrightarrow> prefix p x"
proof (induction t arbitrary: p)
  case (Trie cs)
  show ?case
  proof (cases "cs = [] \<or> (length cs = 1 \<and> m \<le> int (length p))")
    case True
    then show ?thesis using Trie.prems by (auto simp: prefixes_Some split: if_splits)
  next
    case False
    then obtain ch v where cv: "(ch, v) \<in> set cs" and x: "x \<in> prefixes_trie v (Some (p @ [ch])) m"
      using Trie.prems by (auto simp: prefixes_Some split: if_splits)
    have "prefix (p @ [ch]) x" using cv x by (intro Trie.IH [of "(ch, v)" v]) simp_all
    then show ?thesis by (rule append_prefixD)
  qed
qed

lemma prefixes_no_prefix:
  "wf_trie t \<Longrightarrow> x \<in> prefixes_trie t (Some p) 0 \<Longrightarrow> y \<in> prefixes_trie t (Some p) 0 \<Longrightarrow>
   prefix x y \<Longrightarrow> x = y"
proof (induction t arbitrary: p)
  case (Trie cs)
  show ?case
  proof (cases "cs = [] \<or> length cs = 1")
    case True
    then show ?thesis using Trie.prems(2,3) by (auto simp: prefixes_Some split: if_splits)
  next
    case False
    from False Trie.prems(2) obtain ch v where
      cv: "(ch, v) \<in> set cs" and x: "x \<in> prefixes_trie v (Some (p @ [ch])) 0"
      by (auto simp: prefixes_Some split: if_splits)
    from False Trie.prems(3) obtain ch' v' where
      cv': "(ch', v') \<in> set cs" and y: "y \<in> prefixes_trie v' (Some (p @ [ch'])) 0"
      by (auto simp: prefixes_Some split: if_splits)
    have px: "prefix (p @ [ch]) x" using x by (rule prefixes_extend)
    have py: "prefix (p @ [ch']) y" using y by (rule prefixes_extend)
    from px Trie.prems(4) have "prefix (p @ [ch]) y" by (rule prefix_order.trans)
    with py have "p @ [ch] = p @ [ch']" by (auto simp: prefix_def)
    then have "ch = ch'" by simp
    moreover have "distinct (map fst cs)" using Trie.prems(1) by simp
    ultimately have "v = v'" using cv cv' by (auto dest: eq_key_imp_eq_value)
    have "wf_trie v" using Trie.prems(1) cv by (auto simp: list_all_iff)
    then show ?thesis using x y \<open>ch = ch'\<close> \<open>v = v'\<close> Trie.prems(4) cv
      by (intro Trie.IH [of "(ch, v)" v "p @ [ch]"]) simp_all
  qed
qed

subsection \<open>The empty key\<close>

text \<open>
  Claim C10. Calling \<^verbatim>\<open>insert\<close> with the empty key fails at its first statement,
  \<^verbatim>\<open>ch = key[0]\<close>, with an \<^verbatim>\<open>IndexError\<close>, and the trie the call leaves is the
  trie it was given: no node is created and no \<^verbatim>\<open>children\<close> dictionary is changed.
\<close>

theorem insert_empty_key_rejected:
  "insert_trie t [] = (Some IndexError, t)"
  by (cases t) simp

subsection \<open>When shorten returns nothing\<close>

text \<open>
  Claim C4. For a non-empty key, \<^verbatim>\<open>shorten\<close> returns \<^verbatim>\<open>False\<close> exactly when some symbol
  of the key has no matching child at its position (position \<open>i\<close>, in the node reached
  by the first \<open>i\<close> symbols), or the node reached by the whole key still has children.
  In every other case it returns a prefix of the key. This holds for every \<open>minlen\<close>.
\<close>

theorem shorten_absent_iff:
  assumes "key \<noteq> []"
  shows "(shorten t key minlen = Inr None \<longleftrightarrow>
           (\<exists>i<length key. \<exists>n. node_at t (take i key) = Some n \<and>
                map_of (children n) (key ! i) = None) \<or>
           (\<exists>n. node_at t key = Some n \<and> children n \<noteq> [])) \<and>
         (shorten t key minlen = Inr None \<or>
           (\<exists>p. shorten t key minlen = Inr (Some p) \<and> prefix p key))"
proof (cases "node_at t key")
  case None
  then have "shorten t key minlen = Inr None" by (rule shorten_no_path)
  then show ?thesis using None node_at_None_iff [of t key] by simp
next
  case (Some n)
  from shorten_path [OF assms Some, of minlen] obtain items where
    s: "shorten t key minlen =
         (if children n \<noteq> [] then Inr None
          else Inr (Some (scan items (int (length items) - 2) minlen key)))" by blast
  have np: "\<not> (\<exists>i<length key. \<exists>n. node_at t (take i key) = Some n \<and>
                map_of (children n) (key ! i) = None)"
    using Some node_at_None_iff [of t key] by simp
  have pre: "prefix (scan items (int (length items) - 2) minlen key) key"
    using scan_form [of items "int (length items) - 2" key] by (auto simp: slice_to_prefix)
  show ?thesis
  proof (cases "children n = []")
    case True
    then show ?thesis using s Some np pre by simp
  next
    case False
    then show ?thesis using s Some np by simp
  qed
qed

theorem shorten_absent_iff_witness:
  "''12345'' \<noteq> [] \<and>
   map_option (\<lambda>n. children n = []) (node_at (build [''12345678'', ''1234abcd'']) ''12345'')
     = Some False \<and>
   shorten (build [''12345678'', ''1234abcd'']) ''12345'' 1 = Inr None"
proof -
  have ne: "''12345'' \<noteq> []" by simp
  have n0: "map_option (\<lambda>n. children n = []) (node_at (build [''12345678'', ''1234abcd'']) ''12345'')
     = Some False"
    by code_simp
  then have n: "\<exists>n. node_at (build [''12345678'', ''1234abcd'']) ''12345'' = Some n \<and> children n \<noteq> []"
    by (cases "node_at (build [''12345678'', ''1234abcd'']) ''12345''") auto
  have "shorten (build [''12345678'', ''1234abcd'']) ''12345'' 1 = Inr None"
    using shorten_absent_iff [OF ne, of "build [''12345678'', ''1234abcd'']" 1] n by blast
  then show ?thesis using ne n0 by blast
qed

subsection \<open>The length of the result of shorten\<close>

text \<open>
  Claim C5 says the result has at least \<open>minlen\<close> symbols, also when \<open>minlen\<close> exceeds the
  length of the key. The slice \<^verbatim>\<open>key[0:minlen]\<close> cannot be longer than the key: after
  inserting \<^verbatim>\<open>"ab"\<close>, \<^verbatim>\<open>shorten("ab", minlen=5)\<close> is \<^verbatim>\<open>"ab"\<close>, of length 2.
\<close>

theorem shorten_prefix_length_counterexample:
  "shorten (build [''ab'']) ''ab'' 5 = Inr (Some ''ab'') \<and> int (length ''ab'') < 5"
  by code_simp

text \<open>
  Claim C5, amended. Whenever \<^verbatim>\<open>shorten\<close> returns a symbol sequence, that sequence is a
  prefix of the key with at least \<open>min(minlen, len(key))\<close> symbols: at least \<open>minlen\<close> of
  them when the key is that long, and the whole key otherwise.
\<close>

theorem shorten_prefix_length:
  assumes "shorten t key minlen = Inr (Some p)"
  shows "prefix p key \<and> min minlen (int (length key)) \<le> int (length p)"
proof -
  have ne: "key \<noteq> []" using assms by (auto simp: shorten_empty)
  from assms obtain n where n: "node_at t key = Some n"
    using shorten_no_path [of t key minlen] by (cases "node_at t key") auto
  from shorten_path [OF ne n, of minlen] obtain items where
    s: "shorten t key minlen =
         (if children n \<noteq> [] then Inr None
          else Inr (Some (scan items (int (length items) - 2) minlen key)))" by blast
  then have p: "p = scan items (int (length items) - 2) minlen key"
    using assms by (auto split: if_splits)
  from scan_form [of items "int (length items) - 2" key] obtain k where
    k: "scan items (int (length items) - 2) minlen key = slice_to key (if k = 0 then minlen else max k minlen)"
    and k2: "k = 0 \<or> 2 \<le> k" by blast
  show ?thesis using p k k2 by (auto simp: slice_to_prefix length_slice_to)
qed

theorem shorten_prefix_length_witness:
  "shorten (build [''12345678'']) ''12345678'' 2 = Inr (Some ''12'') \<and>
   prefix ''12'' ''12345678'' \<and>
   min 2 (int (length ''12345678'')) \<le> int (length ''12'')"
proof -
  have h: "shorten (build [''12345678'']) ''12345678'' 2 = Inr (Some ''12'')" by code_simp
  from shorten_prefix_length [OF h] show ?thesis using h by blast
qed

text \<open>
  Claim C6. For a fixed trie and key and \<open>0 \<le> m1 \<le> m2\<close>, \<^verbatim>\<open>shorten\<close> with \<open>m1\<close> and with
  \<open>m2\<close> end the same way (both raise, both return \<^verbatim>\<open>False\<close>, or both return a
  sequence), and the sequence for \<open>m2\<close> is at least as long as the one for \<open>m1\<close>.
\<close>

theorem shorten_minlen_mono:
  assumes "0 \<le> m1" "m1 \<le> m2"
  shows "(case (shorten t key m1, shorten t key m2) of
            (Inr (Some p1), Inr (Some p2)) \<Rightarrow> length p1 \<le> length p2
          | (Inr None, Inr None) \<Rightarrow> True
          | (Inl e1, Inl e2) \<Rightarrow> e1 = e2
          | _ \<Rightarrow> False)"
proof (cases "key = []")
  case True
  then show ?thesis by (simp add: shorten_empty)
next
  case ne: False
  show ?thesis
  proof (cases "node_at t key")
    case None
    then show ?thesis by (simp add: shorten_no_path)
  next
    case (Some n)
    from shorten_path [OF ne Some, of m1] shorten_path [OF ne Some, of m2] obtain items where
      s1: "shorten t key m1 =
         (if children n \<noteq> [] then Inr None
          else Inr (Some (scan items (int (length items) - 2) m1 key)))"
      and s2: "shorten t key m2 =
         (if children n \<noteq> [] then Inr None
          else Inr (Some (scan items (int (length items) - 2) m2 key)))" by auto
    from scan_form [of items "int (length items) - 2" key] obtain k where
      k: "\<And>m. scan items (int (length items) - 2) m key = slice_to key (if k = 0 then m else max k m)"
      and k2: "k = 0 \<or> 2 \<le> k" by blast
    have "length (scan items (int (length items) - 2) m1 key)
        \<le> length (scan items (int (length items) - 2) m2 key)"
      using assms k2 by (auto simp: k length_slice_to)
    then show ?thesis using s1 s2 by simp
  qed
qed

theorem shorten_minlen_mono_witness:
  "(0::int) \<le> 1 \<and> (1::int) \<le> 4 \<and>
   shorten (build [''12345678'']) ''12345678'' 1 = Inr (Some ''1'') \<and>
   shorten (build [''12345678'']) ''12345678'' 4 = Inr (Some ''1234'') \<and>
   length ''1'' \<le> length ''1234''"
proof -
  have a: "(0::int) \<le> 1" and b: "(1::int) \<le> 4" by simp_all
  have s1: "shorten (build [''12345678'']) ''12345678'' 1 = Inr (Some ''1'')" by code_simp
  have s4: "shorten (build [''12345678'']) ''12345678'' 4 = Inr (Some ''1234'')" by code_simp
  from shorten_minlen_mono [OF a b, of "build [''12345678'']" "''12345678''"]
  have "length ''1'' \<le> length ''1234''" unfolding s1 s4 by simp
  then show ?thesis using a b s1 s4 by blast
qed

subsection \<open>The branching node that decides the length\<close>

text \<open>
  Claim C1 gives the length of the result as the number of symbols consumed to reach the
  branching node, plus one, clamped upward to \<open>minlen\<close>. The result is the slice
  \<^verbatim>\<open>key[:offset]\<close>, which is no longer than the key: after inserting \<^verbatim>\<open>"ab"\<close> and
  \<^verbatim>\<open>"ac"\<close>, the node reached by \<^verbatim>\<open>"a"\<close> has two children and \<^verbatim>\<open>shorten("ab", minlen=5)\<close>
  is \<^verbatim>\<open>"ab"\<close>, of length 2 and not 5.
\<close>

theorem shorten_branching_counterexample:
  "node_at (build [''ab'', ''ac'']) ''ab'' = Some (Trie []) \<and>
   node_at (build [''ab'', ''ac'']) (take 1 ''ab'') = Some (build [''b'', ''c'']) \<and>
   length (children (build [''b'', ''c''])) = 2 \<and>
   shorten (build [''ab'', ''ac'']) ''ab'' 5 = Inr (Some ''ab'') \<and>
   length ''ab'' \<noteq> nat (max (int 1 + 1) 5)"
  by code_simp

text \<open>
  Claim C1, amended. Let the key reach a node without children, let the node reached by
  its first \<open>k\<close> symbols (\<open>k\<close> less than the length of the key) have two or more
  children, and let every node reached by more than \<open>k\<close> symbols and fewer than the whole
  key have exactly one child. Then \<^verbatim>\<open>shorten\<close> returns \<^verbatim>\<open>key[:n]\<close> for \<open>n\<close> the maximum of
  \<open>k + 1\<close> and \<open>minlen\<close>: the prefix of that length when the key is that long, the whole
  key otherwise. When the branching node is the root (\<open>k = 0\<close>), which the loop never
  inspects, this needs \<open>minlen \<ge> 1\<close>. The instance below is the scenario of the
  specification: after inserting \<^verbatim>\<open>"12345678"\<close> and \<^verbatim>\<open>"1234abcd"\<close>,
  \<^verbatim>\<open>shorten("12345678")\<close> is \<^verbatim>\<open>"12345"\<close>.
\<close>

theorem shorten_branching:
  assumes leaf: "node_at t key = Some leaf" "children leaf = []"
    and k: "k < length key"
    and b: "node_at t (take k key) = Some b" "2 \<le> length (children b)"
    and single: "\<forall>i. k < i \<and> i < length key \<longrightarrow>
                  (\<exists>n. node_at t (take i key) = Some n \<and> length (children n) = 1)"
    and m: "0 < k \<or> 1 \<le> minlen"
  shows "shorten t key minlen = Inr (Some (take (nat (max (int k + 1) minlen)) key))"
proof -
  have ne: "key \<noteq> []" using k by auto
  from shorten_path [OF ne leaf(1), of minlen] obtain items where
    w: "walk t key [] = Some items" and len: "length items = length key" and
    s: "shorten t key minlen = Inr (Some (scan items (int (length items) - 2) minlen key))"
    using leaf(2) by auto
  have nth: "node_at t (take (Suc i) key) = Some (items ! i)" if "i < length key" for i
    using w that by (rule walk_nth)
  have one: "length (children (items ! nat i)) = 1"
    if "int k \<le> i" "i \<le> int (length items) - 2" for i
  proof -
    have i: "nat i < length key" "k < Suc (nat i)" "Suc (nat i) < length key"
      using that len by auto
    from single i(2,3) obtain n where
      "node_at t (take (Suc (nat i)) key) = Some n" "length (children n) = 1" by blast
    then show ?thesis using nth [OF i(1)] by simp
  qed
  show ?thesis
  proof (cases k)
    case 0
    then have "scan items (int (length items) - 2) minlen key = slice_to key minlen"
      using one by (intro scan_chain) simp
    moreover have "1 \<le> minlen" using m 0 by simp
    ultimately show ?thesis using s 0 by (simp add: slice_to_def max_def)
  next
    case (Suc j)
    have j: "j < length key" using k Suc by simp
    have "items ! j = b" using nth [OF j] b(1) Suc by simp
    then have br: "length (children (items ! nat (int j))) \<noteq> 1" using b(2) by simp
    have j0: "0 \<le> int j" by simp
    have joff: "int j \<le> int (length items) - 2" using k Suc len by simp
    have "scan items (int (length items) - 2) minlen key = slice_to key (max (int j + 2) minlen)"
      using j0 joff br
    proof (rule scan_branch)
      fix i assume "int j < i" "i \<le> int (length items) - 2"
      then show "length (children (items ! nat i)) = 1" using Suc by (intro one) simp_all
    qed
    moreover have "max (int j + 2) minlen = max (int k + 1) minlen" using Suc by simp
    moreover have "0 \<le> max (int k + 1) minlen" by simp
    ultimately show ?thesis using s by (simp add: slice_to_def)
  qed
qed

theorem shorten_branching_witness:
  "node_at (build [''12345678'', ''1234abcd'']) ''12345678'' = Some (Trie []) \<and>
   4 < length ''12345678'' \<and>
   node_at (build [''12345678'', ''1234abcd'']) (take 4 ''12345678'')
     = Some (build [''5678'', ''abcd'']) \<and>
   2 \<le> length (children (build [''5678'', ''abcd''])) \<and>
   shorten (build [''12345678'', ''1234abcd'']) ''12345678'' 1 = Inr (Some ''12345'')"
proof -
  let ?t = "build [''12345678'', ''1234abcd'']"
  let ?k = "''12345678''"
  have h1: "node_at ?t ?k = Some (Trie [])" by code_simp
  have h2: "children (Trie []) = []" by simp
  have h3: "4 < length ?k" by simp
  have h4: "node_at ?t (take 4 ?k) = Some (build [''5678'', ''abcd''])" by code_simp
  have h5: "2 \<le> length (children (build [''5678'', ''abcd'']))" by code_simp
  have a5: "map_option (\<lambda>n. length (children n)) (node_at ?t (take 5 ?k)) = Some 1" by code_simp
  have a6: "map_option (\<lambda>n. length (children n)) (node_at ?t (take 6 ?k)) = Some 1" by code_simp
  have a7: "map_option (\<lambda>n. length (children n)) (node_at ?t (take 7 ?k)) = Some 1" by code_simp
  have h6: "\<forall>i. 4 < i \<and> i < length ?k \<longrightarrow>
              (\<exists>n. node_at ?t (take i ?k) = Some n \<and> length (children n) = 1)"
  proof (intro allI impI)
    fix i assume "4 < i \<and> i < length ?k"
    then have "i = 5 \<or> i = 6 \<or> i = 7" by auto
    then have "map_option (\<lambda>n. length (children n)) (node_at ?t (take i ?k)) = Some 1"
      using a5 a6 a7 by blast
    then show "\<exists>n. node_at ?t (take i ?k) = Some n \<and> length (children n) = 1"
      by (cases "node_at ?t (take i ?k)") auto
  qed
  have h7: "0 < (4::nat) \<or> 1 \<le> (1::int)" by simp
  have e: "take (nat (max (int 4 + 1) 1)) ?k = ''12345''" by code_simp
  from shorten_branching [OF h1 h2 h3 h4 h5 h6 h7]
  have "shorten ?t ?k 1 = Inr (Some ''12345'')" unfolding e .
  then show ?thesis using h1 h3 h4 h5 by blast
qed

subsection \<open>find after shorten\<close>

text \<open>
  Claim C2. Let the non-empty key \<open>K\<close> reach a node without children (as a key that was
  inserted and is a true leaf does), and let \<open>minlen \<ge> 1\<close>. Then \<^verbatim>\<open>shorten(K, minlen)\<close>
  returns a sequence, and \<^verbatim>\<open>find\<close> of that sequence is the string \<open>K\<close>.
\<close>

theorem find_shorten_roundtrip:
  assumes ne: "K \<noteq> []" and leaf: "node_at t K = Some leaf" "children leaf = []"
    and m: "1 \<le> minlen"
  shows "\<exists>p. shorten t K minlen = Inr (Some p) \<and> find_trie t (Some p) = Inr (Unique K)"
proof -
  from shorten_path [OF ne leaf(1), of minlen] obtain items where
    w: "walk t K [] = Some items" and len: "length items = length K" and
    s: "shorten t K minlen = Inr (Some (scan items (int (length items) - 2) minlen K))"
    using leaf(2) by auto
  have nth: "node_at t (take (Suc i) K) = Some (items ! i)" if "i < length K" for i
    using w that by (rule walk_nth)
  from scan_form [of items "int (length items) - 2" K] obtain n where
    sc: "scan items (int (length items) - 2) minlen K = slice_to K (if n = 0 then minlen else max n minlen)"
    and n2: "n = 0 \<or> 2 \<le> n"
    and one: "\<And>i. 0 \<le> i \<Longrightarrow> n - 1 \<le> i \<Longrightarrow> i \<le> int (length items) - 2 \<Longrightarrow>
                length (children (items ! nat i)) = 1"
    by blast
  define L' where "L' = (if n = 0 then minlen else max n minlen)"
  define L where "L = min (nat L') (length K)"
  define p where "p = take L K"
  have L'1: "1 \<le> L'" and L'n: "n \<le> L'" using m n2 unfolding L'_def by auto
  have L1: "1 \<le> L" and LK: "L \<le> length K" using L'1 ne unfolding L_def by (auto simp: Suc_le_eq)
  have pne: "p \<noteq> []" using L1 ne unfolding p_def by auto
  have "take (nat L') K = take L K" unfolding L_def by (simp add: min_def)
  then have sp: "shorten t K minlen = Inr (Some p)"
    using s sc L'1 unfolding p_def L'_def [symmetric] by (simp add: slice_to_def)
  have K: "K = p @ drop L K" unfolding p_def by simp
  from leaf(1) obtain nd where nd: "node_at t p = Some nd" and
    rest: "node_at nd (drop L K) = Some leaf"
    using node_at_append [of t p "drop L K"] K by (cases "node_at t p") auto
  have "find_None nd = Unique (drop L K)"
  proof (rule find_None_chain [OF rest leaf(2)])
    fix i assume i: "i < length (drop L K)"
    then have lt: "L + i < length K" by simp
    then have Leq: "L = nat L'" unfolding L_def by auto
    have "take (L + i) K = p @ take i (drop L K)" unfolding p_def by (simp add: take_add)
    then have a: "node_at t (take (L + i) K) = node_at nd (take i (drop L K))"
      using nd by (simp add: node_at_append)
    have "L + i - 1 < length K" using lt by simp
    from nth [OF this] have b: "node_at t (take (L + i) K) = Some (items ! (L + i - 1))"
      using L1 by simp
    have "length (children (items ! nat (int (L + i - 1)))) = 1"
    proof (rule one)
      show "0 \<le> int (L + i - 1)" by simp
      show "n - 1 \<le> int (L + i - 1)" using L'n L1 Leq by auto
      show "int (L + i - 1) \<le> int (length items) - 2" using lt len L1 by (simp add: of_nat_diff)
    qed
    moreover have "node_at nd (take i (drop L K)) = Some (items ! (L + i - 1))"
      using a b by simp
    ultimately show "\<exists>m. node_at nd (take i (drop L K)) = Some m \<and> length (children m) = 1"
      by simp
  qed
  then have "find_str t p = Inr (Unique K)"
    using find_str_node [OF pne nd] K by simp
  then show ?thesis using sp by (simp add: find_trie_def)
qed

theorem find_shorten_roundtrip_witness:
  "''12345678'' \<noteq> [] \<and>
   node_at (build [''12345678'', ''1234abcd'']) ''12345678'' = Some (Trie []) \<and>
   (1::int) \<le> 4 \<and>
   shorten (build [''12345678'', ''1234abcd'']) ''12345678'' 4 = Inr (Some ''12345'') \<and>
   find_trie (build [''12345678'', ''1234abcd'']) (Some ''12345'') = Inr (Unique ''12345678'')"
proof -
  let ?t = "build [''12345678'', ''1234abcd'']"
  have h1: "''12345678'' \<noteq> []" by simp
  have h2: "node_at ?t ''12345678'' = Some (Trie [])" by code_simp
  have h3: "children (Trie []) = []" by simp
  have h4: "(1::int) \<le> 4" by simp
  have s: "shorten ?t ''12345678'' 4 = Inr (Some ''12345'')" by code_simp
  from find_shorten_roundtrip [OF h1 h2 h3 h4] obtain p where
    "shorten ?t ''12345678'' 4 = Inr (Some p)" "find_trie ?t (Some p) = Inr (Unique ''12345678'')"
    by blast
  then have "find_trie ?t (Some ''12345'') = Inr (Unique ''12345678'')" using s by simp
  then show ?thesis using h1 h2 h4 s by blast
qed

subsection \<open>The ambiguous result of find\<close>

text \<open>
  Claim C3 says the string of an ambiguous result holds only the symbols of the run of
  single-child nodes beyond the prefix, so that \<^verbatim>\<open>find("c")\<close> is \<open>Ambiguous("", node)\<close>
  after inserting larry, moe, curly and clinton. The source prepends every consumed
  symbol of the prefix as well (\<^verbatim>\<open>return (ch + tail, child)\<close>), and its doctest expects
  \<^verbatim>\<open>found[0] == 'c'\<close>.
\<close>

theorem find_ambiguous_counterexample:
  "node_at (build [''larry'', ''moe'', ''curly'', ''clinton'']) ''c''
     = Some (build [''urly'', ''linton'']) \<and>
   single_run (build [''urly'', ''linton'']) = ([], build [''urly'', ''linton'']) \<and>
   length (children (build [''urly'', ''linton''])) = 2 \<and>
   find_trie (build [''larry'', ''moe'', ''curly'', ''clinton'']) (Some ''c'')
     = Inr (Ambiguous ''c'' (build [''urly'', ''linton''])) \<and>
   find_trie (build [''larry'', ''moe'', ''curly'', ''clinton'']) (Some ''c'')
     \<noteq> Inr (Ambiguous [] (build [''urly'', ''linton'']))"
  by code_simp

text \<open>
  Claim C3, amended. Let the non-empty prefix reach a node, and let the run of
  single-child nodes from that node end in a node with two or more children. Then
  \<^verbatim>\<open>find\<close> returns the pair of the prefix followed by the symbols of the run (possibly
  none), and that branching node.
\<close>

theorem find_ambiguous:
  assumes "p \<noteq> []" "node_at t p = Some n" "single_run n = (r, b)" "2 \<le> length (children b)"
  shows "find_trie t (Some p) = Inr (Ambiguous (p @ r) b)"
proof -
  have "children b \<noteq> []" using assms(4) by auto
  then have "find_None n = Ambiguous r b" using assms(3) by (simp add: find_None_run)
  then show ?thesis using find_str_node [OF assms(1,2)] by (simp add: find_trie_def)
qed

theorem find_ambiguous_witness:
  "''a'' \<noteq> [] \<and>
   node_at (build [''ab1'', ''ab2'']) ''a'' = Some (build [''b1'', ''b2'']) \<and>
   single_run (build [''b1'', ''b2'']) = (''b'', build [''1'', ''2'']) \<and>
   2 \<le> length (children (build [''1'', ''2''])) \<and>
   find_trie (build [''ab1'', ''ab2'']) (Some ''a'') = Inr (Ambiguous ''ab'' (build [''1'', ''2'']))"
proof -
  have h1: "''a'' \<noteq> []" by simp
  have h2: "node_at (build [''ab1'', ''ab2'']) ''a'' = Some (build [''b1'', ''b2''])" by code_simp
  have h3: "single_run (build [''b1'', ''b2'']) = (''b'', build [''1'', ''2''])" by code_simp
  have h4: "2 \<le> length (children (build [''1'', ''2'']))" by code_simp
  from find_ambiguous [OF h1 h2 h3 h4] show ?thesis using h1 h2 h3 h4 by simp
qed

subsection \<open>Inserting a key again\<close>

text \<open>
  Claim C7. Let the non-empty key have its path in the trie, as every key inserted
  before has (\<open>node_at_build\<close>). Then inserting it again returns normally and leaves
  the trie as it was, so \<^verbatim>\<open>prefixes\<close> gives the same set for every \<open>prefix\<close> and \<open>minlen\<close>
  and \<^verbatim>\<open>shorten\<close> the same result for every key and \<open>minlen\<close>.
\<close>

theorem insert_again_unchanged:
  assumes "key \<noteq> []" "node_at t key \<noteq> None"
  shows "insert_trie t key = (None, t) \<and>
         prefixes_trie (inserted t key) pfx minlen = prefixes_trie t pfx minlen \<and>
         shorten (inserted t key) k m = shorten t k m"
proof -
  have "inserted t key = t" using assms by (rule inserted_existing)
  moreover have "fst (insert_trie t key) = None" using assms(1) by (rule insert_trie_returns)
  ultimately show ?thesis by (simp add: inserted_def prod_eq_iff)
qed

theorem insert_again_unchanged_witness:
  "''moe'' \<noteq> [] \<and>
   node_at (build [''larry'', ''moe'']) ''moe'' = Some (Trie []) \<and>
   insert_trie (build [''larry'', ''moe'']) ''moe'' = (None, build [''larry'', ''moe'']) \<and>
   prefixes_trie (inserted (build [''larry'', ''moe'']) ''moe'') None 0
     = prefixes_trie (build [''larry'', ''moe'']) None 0 \<and>
   shorten (inserted (build [''larry'', ''moe'']) ''moe'') ''larry'' 1
     = shorten (build [''larry'', ''moe'']) ''larry'' 1"
proof -
  have h1: "''moe'' \<noteq> []" by simp
  have h2: "node_at (build [''larry'', ''moe'']) ''moe'' = Some (Trie [])" by code_simp
  then have h3: "node_at (build [''larry'', ''moe'']) ''moe'' \<noteq> None" by simp
  from insert_again_unchanged [OF h1 h3, where pfx = None and minlen = 0 and k = "''larry''" and m = 1]
  show ?thesis using h1 h2 by blast
qed

subsection \<open>prefixes with no minimum length\<close>

text \<open>
  Claim C8. For a trie whose \<^verbatim>\<open>children\<close> are dictionaries (no key twice in a node, which
  holds of every trie built by \<^verbatim>\<open>insert\<close>: \<open>wf_trie_build\<close>), no element of the set
  \<^verbatim>\<open>prefixes(minlen=0)\<close> is a proper prefix of another element of it.
\<close>

theorem prefixes_disjoint:
  assumes "wf_trie t" "x \<in> prefixes_trie t None 0" "y \<in> prefixes_trie t None 0"
  shows "\<not> strict_prefix x y"
proof
  assume "strict_prefix x y"
  then have "prefix x y" "x \<noteq> y" by (auto simp: strict_prefix_def)
  moreover have "x \<in> prefixes_trie t (Some []) 0" "y \<in> prefixes_trie t (Some []) 0"
    using assms(2,3) by (simp_all add: prefixes_None)
  ultimately show False using prefixes_no_prefix [OF assms(1)] by blast
qed

theorem prefixes_disjoint_witness:
  "wf_trie (build [''larry'', ''moe'', ''curly'', ''clinton'']) \<and>
   ''cl'' \<in> prefixes_trie (build [''larry'', ''moe'', ''curly'', ''clinton'']) None 0 \<and>
   ''cu'' \<in> prefixes_trie (build [''larry'', ''moe'', ''curly'', ''clinton'']) None 0 \<and>
   \<not> strict_prefix ''cl'' ''cu''"
proof -
  let ?t = "build [''larry'', ''moe'', ''curly'', ''clinton'']"
  have h1: "wf_trie ?t" by (rule wf_trie_build)
  have h2: "''cl'' \<in> prefixes_trie ?t None 0" by code_simp
  have h3: "''cu'' \<in> prefixes_trie ?t None 0" by code_simp
  from prefixes_disjoint [OF h1 h2 h3] show ?thesis using h1 h2 h3 by blast
qed

subsection \<open>The trie only grows\<close>

text \<open>
  Claim C9. Every path that reaches a node before \<^verbatim>\<open>insert(key)\<close> reaches a node after
  it, and the keys of that node's \<^verbatim>\<open>children\<close> before the call are, in the same order,
  the first keys of its \<^verbatim>\<open>children\<close> after the call: entries are only appended, none is
  removed or moved. The children themselves are nodes one symbol further down, which
  the statement covers by their own paths.
\<close>

theorem insert_only_grows:
  assumes "node_at t p = Some n"
  shows "\<exists>n'. node_at (inserted t key) p = Some n' \<and>
             prefix (map fst (children n)) (map fst (children n'))"
  using assms by (rule insert_keeps_nodes)

theorem insert_only_grows_witness:
  "node_at (build [''ab'']) ''a'' = Some (build [''b'']) \<and>
   node_at (inserted (build [''ab'']) ''ac'') ''a'' = Some (build [''b'', ''c'']) \<and>
   prefix (map fst (children (build [''b'']))) (map fst (children (build [''b'', ''c''])))"
proof -
  have h: "node_at (build [''ab'']) ''a'' = Some (build [''b''])" by code_simp
  have e: "node_at (inserted (build [''ab'']) ''ac'') ''a'' = Some (build [''b'', ''c''])"
    by code_simp
  from insert_only_grows [OF h, of "''ac''"] obtain n' where
    "node_at (inserted (build [''ab'']) ''ac'') ''a'' = Some n'"
    "prefix (map fst (children (build [''b'']))) (map fst (children n'))" by blast
  then show ?thesis using h e by simp
qed

end
